theory Spec2Isabelle
  imports Main "HOL-Library.Product_Lexorder"
begin

section \<open>Cron expression parser and schedule iterator (cron\_parser\_py.py)\<close>

text \<open>
  The development embeds the functions of \<^verbatim>\<open>src/cron_parser_py.py\<close> one by one.
  Python integers are \<open>int\<close>, Python strings are \<open>string\<close> (a \<open>char\<close> is read as
  the code point of its number, so the texts are those over the code points below 256), a
  raised exception is the left summand of
  \<open>error + 'a\<close>. The \<^verbatim>\<open>isinstance(..., str)\<close> guards of \<^verbatim>\<open>parse_field\<close> and
  \<^verbatim>\<open>parse_cron_expression\<close> cannot fire on a \<open>string\<close> and have no branch here.
\<close>

subsection \<open>Exceptions\<close>

datatype error =
    ValueError string
  | IndexError
  | OverflowError
  | StopIteration

subsection \<open>The string primitives the parser uses\<close>

definition is_digit :: "char \<Rightarrow> bool" where
  "is_digit c = (c \<in> set ''0123456789'')"

text \<open>
  \<^verbatim>\<open>re.fullmatch(r'\d+', s)\<close>: one digit at least, decimal digits only. Below code point
  256 the decimal digits are \<open>0\<close>..\<open>9\<close>.
\<close>

definition isdigit :: "string \<Rightarrow> bool" where
  "isdigit s = (s \<noteq> [] \<and> list_all is_digit s)"

text \<open>
  \<^verbatim>\<open>s.isdigit()\<close> also holds of the superscript digits two, three and one (code points
  178, 179, 185), which \<^verbatim>\<open>int(s)\<close> then refuses with a ValueError of its own.
\<close>

definition is_superscript_digit :: "char \<Rightarrow> bool" where
  "is_superscript_digit c = (c = CHR 0xB2 \<or> c = CHR 0xB3 \<or> c = CHR 0xB9)"

definition str_isdigit :: "string \<Rightarrow> bool" where
  "str_isdigit s = (s \<noteq> [] \<and> list_all (\<lambda>c. is_digit c \<or> is_superscript_digit c) s)"

definition digit_val :: "char \<Rightarrow> int" where
  "digit_val c = int (of_char c) - 48"

text \<open>\<^verbatim>\<open>int(s)\<close> on a string of digits (leading zeros allowed).\<close>

definition py_int :: "string \<Rightarrow> int" where
  "py_int s = foldl (\<lambda>a c. 10 * a + digit_val c) 0 s"

definition digit_char :: "nat \<Rightarrow> char" where
  "digit_char n = char_of (48 + n)"

fun str_nat :: "nat \<Rightarrow> string" where
  "str_nat n = (if n < 10 then [digit_char n] else str_nat (n div 10) @ [digit_char (n mod 10)])"

declare str_nat.simps [simp del]

text \<open>\<^verbatim>\<open>str(i)\<close>, also what an f-string prints for an integer.\<close>

definition py_str :: "int \<Rightarrow> string" where
  "py_str i = (if i < 0 then CHR ''-'' # str_nat (nat (- i)) else str_nat (nat i))"

text \<open>\<^verbatim>\<open>s.split(c)\<close> for a separator of one character: never the empty list.\<close>

fun split_on :: "char \<Rightarrow> string \<Rightarrow> string list" where
  "split_on c [] = [[]]"
| "split_on c (x # xs) =
     (if x = c then [] # split_on c xs
      else (case split_on c xs of [] \<Rightarrow> [[x]] | p # ps \<Rightarrow> (x # p) # ps))"

text \<open>
  \<^verbatim>\<open>re.fullmatch(r'\d+-\d+', s)\<close>, returning the two digit strings that
  \<^verbatim>\<open>s.split('-')\<close> then yields.
\<close>

definition match_range :: "string \<Rightarrow> (string \<times> string) option" where
  "match_range s =
     (case split_on CHR ''-'' s of
        [a, b] \<Rightarrow> if isdigit a \<and> isdigit b then Some (a, b) else None
      | _ \<Rightarrow> None)"

definition quoted :: "string \<Rightarrow> string" where
  "quoted s = [CHR 0x27] @ s @ [CHR 0x27]"

subsection \<open>Symbolic names\<close>

definition MONTH_MAP :: "(string \<times> int) list" where
  "MONTH_MAP =
     [(''JAN'', 1), (''FEB'', 2), (''MAR'', 3), (''APR'', 4),
      (''MAY'', 5), (''JUN'', 6), (''JUL'', 7), (''AUG'', 8),
      (''SEP'', 9), (''OCT'', 10), (''NOV'', 11), (''DEC'', 12)]"

definition DOW_MAP :: "(string \<times> int) list" where
  "DOW_MAP =
     [(''SUN'', 0), (''MON'', 1), (''TUE'', 2), (''WED'', 3),
      (''THU'', 4), (''FRI'', 5), (''SAT'', 6)]"

text \<open>
  \<^verbatim>\<open>re.sub('|'.join(TABLE.keys()), repl, field)\<close> where every key has three letters:
  scanning from the left, a key at the current position is replaced by \<^verbatim>\<open>str(TABLE[key])\<close>
  and the scan resumes behind it; any other character is copied.
\<close>

fun re_sub_keys :: "(string \<times> int) list \<Rightarrow> string \<Rightarrow> string" where
  "re_sub_keys tbl (a # b # c # rest) =
     (case map_of tbl [a, b, c] of
        Some v \<Rightarrow> py_str v @ re_sub_keys tbl rest
      | None \<Rightarrow> a # re_sub_keys tbl (b # c # rest))"
| "re_sub_keys tbl s = s"

definition replace_month_string :: "string \<Rightarrow> string" where
  "replace_month_string field = re_sub_keys MONTH_MAP field"

definition replace_dow_string :: "string \<Rightarrow> string" where
  "replace_dow_string field = re_sub_keys DOW_MAP field"

text \<open>
  The specification's side of the round trip of names: a field text is a sequence of
  symbolic names and of other characters (none of them a capital letter).
  \<open>spec_symbolic_text\<close> spells the names out, \<open>spec_numeric_text\<close> is the equivalent
  numeric text, with the decimal number of the table for each name. Neither is code of the
  source; the source's resolver is \<open>re_sub_keys\<close>.
\<close>

datatype token = Lit char | Name string

definition is_upper :: "char \<Rightarrow> bool" where
  "is_upper c = (c \<in> set ''ABCDEFGHIJKLMNOPQRSTUVWXYZ'')"

fun token_ok :: "(string \<times> int) list \<Rightarrow> token \<Rightarrow> bool" where
  "token_ok tbl (Lit c) = (\<not> is_upper c)"
| "token_ok tbl (Name k) = (k \<in> set (map fst tbl))"

fun spec_symbolic_text :: "token list \<Rightarrow> string" where
  "spec_symbolic_text [] = []"
| "spec_symbolic_text (Lit c # ts) = c # spec_symbolic_text ts"
| "spec_symbolic_text (Name k # ts) = k @ spec_symbolic_text ts"

fun spec_numeric_text :: "(string \<times> int) list \<Rightarrow> token list \<Rightarrow> string" where
  "spec_numeric_text tbl [] = []"
| "spec_numeric_text tbl (Lit c # ts) = c # spec_numeric_text tbl ts"
| "spec_numeric_text tbl (Name k # ts) =
     (case map_of tbl k of Some v \<Rightarrow> py_str v | None \<Rightarrow> k) @ spec_numeric_text tbl ts"



text \<open>What the resolver relies on in a table: every key is three characters, the first a capital.\<close>

definition keys_ok :: "(string \<times> int) list \<Rightarrow> bool" where
  "keys_ok tbl = list_all (\<lambda>(k, v). case k of [a, b, c] \<Rightarrow> is_upper a | _ \<Rightarrow> False) tbl"

subsection \<open>Field parser\<close>

definition parse_range :: "string \<Rightarrow> int \<Rightarrow> int \<Rightarrow> string \<Rightarrow> error + int list" where
  "parse_range range_str min' max' field_name =
     (if range_str = ''*'' then Inr [min'..max']
      else if isdigit range_str then
        (let v = py_int range_str in
         if v < min' \<or> v > max'
         then Inl (ValueError (field_name @ '' field contains out of range value '' @ quoted (py_str v)))
         else Inr [v])
      else
        (case match_range range_str of
           Some (a, b) \<Rightarrow>
             (let start = py_int a; end' = py_int b in
              if start > end' \<or> start < min' \<or> end' > max'
              then Inl (ValueError (field_name @ '' field contains invalid range '' @ quoted range_str))
              else Inr [start..end'])
         | None \<Rightarrow>
             Inl (ValueError (field_name @ '' field contains invalid range '' @ quoted range_str))))"

text \<open>
  \<^verbatim>\<open>range_str, step_str = part.split('/')\<close> raises a ValueError of the interpreter's own
  when the part holds two slashes or more; its message is the interpreter's. In
  \<^verbatim>\<open>not step_str.isdigit() or int(step_str) <= 0\<close> the call \<^verbatim>\<open>int(step_str)\<close> runs
  only when \<^verbatim>\<open>isdigit()\<close> holds, and raises on a superscript digit.
\<close>

definition parse_part :: "string \<Rightarrow> int \<Rightarrow> int \<Rightarrow> string \<Rightarrow> error + int list" where
  "parse_part part min' max' field_name =
     (if CHR ''/'' \<in> set part then
        (case split_on CHR ''/'' part of
           [range_str, step_str] \<Rightarrow>
             (case parse_range range_str min' max' field_name of
                Inl e \<Rightarrow> Inl e
              | Inr range_vals \<Rightarrow>
                  if \<not> str_isdigit step_str
                  then Inl (ValueError (field_name @ '' field contains invalid step value '' @ quoted step_str))
                  else if \<not> isdigit step_str
                  then Inl (ValueError (''invalid literal for int() with base 10: '' @ quoted step_str))
                  else if py_int step_str \<le> 0
                  then Inl (ValueError (field_name @ '' field contains invalid step value '' @ quoted step_str))
                  else (let step = py_int step_str
                        in Inr (filter (\<lambda>v. (v - min') mod step = 0) range_vals)))
         | _ \<Rightarrow> Inl (ValueError ''too many values to unpack (expected 2)''))
      else parse_range part min' max' field_name)"

text \<open>The loop of \<^verbatim>\<open>parse_field\<close>: \<open>result\<close> is the accumulator, the first failing part ends it.\<close>

fun parse_parts :: "int list \<Rightarrow> string list \<Rightarrow> int \<Rightarrow> int \<Rightarrow> string \<Rightarrow> error + int list" where
  "parse_parts result [] min' max' field_name = Inr result"
| "parse_parts result (part # parts) min' max' field_name =
     (case parse_part part min' max' field_name of
        Inl e \<Rightarrow> Inl e
      | Inr vs \<Rightarrow> parse_parts (result @ vs) parts min' max' field_name)"

definition parse_field :: "string \<Rightarrow> int \<Rightarrow> int \<Rightarrow> string \<Rightarrow> error + int list" where
  "parse_field field min' max' field_name =
     (case parse_parts [] (split_on CHR '','' field) min' max' field_name of
        Inl e \<Rightarrow> Inl e
      | Inr result \<Rightarrow> Inr (sort (remdups result)))"

subsection \<open>Next-or-wrap search\<close>

text \<open>
  The loop returns at the first candidate of \<^verbatim>\<open>sorted(candidates)\<close> that is not below
  \<open>current\<close>; \<^verbatim>\<open>candidates[0]\<close> after the loop raises IndexError on the empty list.
\<close>

definition to_next_value :: "int \<Rightarrow> int list \<Rightarrow> int \<Rightarrow> int \<Rightarrow> error + int" where
  "to_next_value current candidates min' max' =
     (case find (\<lambda>candidate. candidate \<ge> current) (sort candidates) of
        Some candidate \<Rightarrow> Inr (candidate - current)
      | None \<Rightarrow>
          (case candidates of
             [] \<Rightarrow> Inl IndexError
           | c0 # _ \<Rightarrow> Inr (c0 + max' + min' + 1 - current)))"

subsection \<open>Timestamps\<close>

text \<open>
  A naive \<^verbatim>\<open>datetime\<close>: its seven attributes. The library keeps every value inside the
  ranges of \<open>valid_datetime\<close>, compares two values attribute by attribute from the year
  down, and raises OverflowError when arithmetic leaves the years 1..9999.
\<close>

record datetime =
  year :: int
  month :: int
  day :: int
  hour :: int
  minute :: int
  second :: int
  microsecond :: int

text \<open>The constructor call \<^verbatim>\<open>datetime(y, m, d, h, mi)\<close>.\<close>

definition mk_datetime :: "int \<Rightarrow> int \<Rightarrow> int \<Rightarrow> int \<Rightarrow> int \<Rightarrow> datetime" where
  "mk_datetime y m d h mi =
     \<lparr>year = y, month = m, day = d, hour = h, minute = mi, second = 0, microsecond = 0\<rparr>"

definition is_leap :: "int \<Rightarrow> bool" where
  "is_leap y = (y mod 4 = 0 \<and> (y mod 100 \<noteq> 0 \<or> y mod 400 = 0))"

definition days_in_month :: "int \<Rightarrow> int \<Rightarrow> int" where
  "days_in_month y m =
     (if m = 2 then (if is_leap y then 29 else 28)
      else if m = 4 \<or> m = 6 \<or> m = 9 \<or> m = 11 then 30 else 31)"

definition valid_datetime :: "datetime \<Rightarrow> bool" where
  "valid_datetime dt =
     (1 \<le> year dt \<and> year dt \<le> 9999 \<and> 1 \<le> month dt \<and> month dt \<le> 12 \<and>
      1 \<le> day dt \<and> day dt \<le> days_in_month (year dt) (month dt) \<and>
      0 \<le> hour dt \<and> hour dt \<le> 23 \<and> 0 \<le> minute dt \<and> minute dt \<le> 59 \<and>
      0 \<le> second dt \<and> second dt \<le> 59 \<and> 0 \<le> microsecond dt \<and> microsecond dt \<le> 999999)"

definition dt_key :: "datetime \<Rightarrow> int \<times> int \<times> int \<times> int \<times> int \<times> int \<times> int" where
  "dt_key dt = (year dt, month dt, day dt, hour dt, minute dt, second dt, microsecond dt)"

text \<open>\<^verbatim>\<open>a < b\<close> and \<^verbatim>\<open>a <= b\<close> on timestamps.\<close>

definition dt_less :: "datetime \<Rightarrow> datetime \<Rightarrow> bool" where
  "dt_less a b = (dt_key a < dt_key b)"

definition dt_le :: "datetime \<Rightarrow> datetime \<Rightarrow> bool" where
  "dt_le a b = (dt_key a \<le> dt_key b)"

text \<open>The calendar date of a timestamp, and its time of day inside the library's ranges.\<close>

definition date_key :: "datetime \<Rightarrow> int \<times> int \<times> int" where
  "date_key dt = (year dt, month dt, day dt)"

definition valid_time :: "datetime \<Rightarrow> bool" where
  "valid_time dt = (0 \<le> hour dt \<and> hour dt \<le> 23 \<and> 0 \<le> minute dt \<and> minute dt \<le> 59)"

definition same_time :: "datetime \<Rightarrow> datetime \<Rightarrow> bool" where
  "same_time a b = (hour a = hour b \<and> minute a = minute b \<and> second a = second b \<and>
                    microsecond a = microsecond b)"

text \<open>The calendar day after and the calendar day before; the time of day is kept.\<close>

definition next_day :: "datetime \<Rightarrow> error + datetime" where
  "next_day dt =
     (if day dt < days_in_month (year dt) (month dt) then Inr (dt\<lparr>day := day dt + 1\<rparr>)
      else if month dt < 12 then Inr (dt\<lparr>month := month dt + 1, day := 1\<rparr>)
      else if year dt < 9999 then Inr (dt\<lparr>year := year dt + 1, month := 1, day := 1\<rparr>)
      else Inl OverflowError)"

definition prev_day :: "datetime \<Rightarrow> error + datetime" where
  "prev_day dt =
     (if 1 < day dt then Inr (dt\<lparr>day := day dt - 1\<rparr>)
      else if 1 < month dt
        then Inr (dt\<lparr>month := month dt - 1, day := days_in_month (year dt) (month dt - 1)\<rparr>)
      else if 1 < year dt then Inr (dt\<lparr>year := year dt - 1, month := 12, day := 31\<rparr>)
      else Inl OverflowError)"

fun iterate :: "nat \<Rightarrow> ('a \<Rightarrow> error + 'a) \<Rightarrow> 'a \<Rightarrow> error + 'a" where
  "iterate 0 f x = Inr x"
| "iterate (Suc n) f x = (case f x of Inl e \<Rightarrow> Inl e | Inr y \<Rightarrow> iterate n f y)"

text \<open>\<^verbatim>\<open>dt + timedelta(days=n)\<close>.\<close>

definition add_days :: "datetime \<Rightarrow> int \<Rightarrow> error + datetime" where
  "add_days dt n = (if 0 \<le> n then iterate (nat n) next_day dt else iterate (nat (- n)) prev_day dt)"

text \<open>
  \<^verbatim>\<open>dt + timedelta(minutes=n)\<close> and \<^verbatim>\<open>dt + timedelta(hours=n)\<close>: the time of day is
  taken modulo one day (floor division, as Python's) and the quotient is added as days.
\<close>

definition add_minutes :: "datetime \<Rightarrow> int \<Rightarrow> error + datetime" where
  "add_minutes dt n =
     (let total = hour dt * 60 + minute dt + n
      in add_days (dt\<lparr>hour := (total mod 1440) div 60, minute := total mod 60\<rparr>) (total div 1440))"

definition add_hours :: "datetime \<Rightarrow> int \<Rightarrow> error + datetime" where
  "add_hours dt n =
     (let total = hour dt + n
      in add_days (dt\<lparr>hour := total mod 24\<rparr>) (total div 24))"

text \<open>\<^verbatim>\<open>dt.replace(minute=v)\<close> checks the new value.\<close>

definition replace_minute :: "datetime \<Rightarrow> int \<Rightarrow> error + datetime" where
  "replace_minute dt v =
     (if 0 \<le> v \<and> v \<le> 59 then Inr (dt\<lparr>minute := v\<rparr>)
      else Inl (ValueError ''minute must be in 0..59''))"

text \<open>
  \<^verbatim>\<open>dt.weekday()\<close> is \<^verbatim>\<open>(dt.toordinal() + 6) % 7\<close>: Monday is 0 and Sunday is 6.
  The ordinal counts days from 0001-01-01 as day 1.
\<close>

definition days_before_year :: "int \<Rightarrow> int" where
  "days_before_year y = (let p = y - 1 in p * 365 + p div 4 - p div 100 + p div 400)"

definition days_before_month :: "int \<Rightarrow> int \<Rightarrow> int" where
  "days_before_month y m = sum_list (map (days_in_month y) [1..m - 1])"

definition toordinal :: "datetime \<Rightarrow> int" where
  "toordinal dt = days_before_year (year dt) + days_before_month (year dt) (month dt) + day dt"

definition weekday :: "datetime \<Rightarrow> int" where
  "weekday dt = (toordinal dt + 6) mod 7"

text \<open>
  The numbering of the specification and of \<open>DOW_MAP\<close>: Sunday is 0 and Saturday is 6.
  The source never computes it; it is here to state what the specification asks for.
\<close>

definition weekday_sunday0 :: "datetime \<Rightarrow> int" where
  "weekday_sunday0 dt = (weekday dt + 1) mod 7"

subsection \<open>Time-of-day advancer and date advancer\<close>

definition and_then :: "error + 'a \<Rightarrow> ('a \<Rightarrow> error + 'b) \<Rightarrow> error + 'b" where
  "and_then r f = (case r of Inl e \<Rightarrow> Inl e | Inr x \<Rightarrow> f x)"

text \<open>\<^verbatim>\<open>xs[0]\<close>.\<close>

fun first :: "'a list \<Rightarrow> error + 'a" where
  "first (x # xs) = Inr x"
| "first [] = Inl IndexError"

definition shift_time :: "datetime \<Rightarrow> int list \<Rightarrow> int list \<Rightarrow> error + datetime" where
  "shift_time dt minutes hours =
     and_then (to_next_value (minute dt) minutes 0 59) (\<lambda>add_minute.
     and_then (add_minutes dt add_minute) (\<lambda>dt1.
     and_then (if minute dt1 \<notin> set minutes
               then and_then (first minutes) (replace_minute dt1)
               else Inr dt1) (\<lambda>dt2.
     and_then (to_next_value (hour dt2) hours 0 23) (\<lambda>add_hour.
       if add_hour > 0
       then and_then (add_hours dt2 add_hour) (\<lambda>dt3.
            and_then (first minutes) (replace_minute dt3))
       else Inr dt2))))"

text \<open>
  The loop of \<^verbatim>\<open>shift_date\<close> has no bound of its own. Each round moves to a later
  calendar day, and the library raises OverflowError behind 9999-12-31, so the loop ends.
\<close>

function shift_date :: "datetime \<Rightarrow> int list \<Rightarrow> int list \<Rightarrow> int list \<Rightarrow> error + datetime" where
  "shift_date dt dom' month' dow =
     (if day dt \<in> set dom' \<and> month dt \<in> set month' \<and> weekday dt \<in> set dow then Inr dt
      else (case add_days dt 1 of
              Inl e \<Rightarrow> Inl e
            | Inr dt' \<Rightarrow> shift_date (dt'\<lparr>hour := 0, minute := 0\<rparr>) dom' month' dow))"
  by pat_completeness auto
termination
  by (relation "measures [\<lambda>(dt, _). nat (9999 - year dt), \<lambda>(dt, _). nat (12 - month dt),
                          \<lambda>(dt, _). nat (31 - day dt)]")
     (auto simp: add_days_def next_day_def days_in_month_def split: if_splits)

declare shift_date.simps [simp del]

subsection \<open>Schedule iterator\<close>

record cron_iter =
  self_minute :: "int list"
  self_hour :: "int list"
  self_dom :: "int list"
  self_month :: "int list"
  self_dow :: "int list"
  self_current :: datetime

text \<open>
  \<^verbatim>\<open>CronScheduleIterator.__init__\<close>. A timestamp is never falsy, so
  \<^verbatim>\<open>start_date or datetime.now()\<close> reads the clock only for \<open>None\<close>; the clock's
  reading is the parameter \<open>now\<close>.
\<close>

definition cron_init ::
  "int list \<Rightarrow> int list \<Rightarrow> int list \<Rightarrow> int list \<Rightarrow> int list \<Rightarrow> datetime option \<Rightarrow> datetime
     \<Rightarrow> error + cron_iter" where
  "cron_init minute' hour' dom' month' dow start_date now =
     and_then
       (add_minutes ((case start_date of Some d \<Rightarrow> d | None \<Rightarrow> now)\<lparr>second := 0, microsecond := 0\<rparr>) 1)
       (\<lambda>cur. Inr \<lparr>self_minute = minute', self_hour = hour', self_dom = dom', self_month = month',
                   self_dow = map (\<lambda>d. if d = 7 then 0 else d) dow, self_current = cur\<rparr>)"

text \<open>
  \<^verbatim>\<open>__next__\<close>: the body of its \<^verbatim>\<open>while True\<close> ends in \<^verbatim>\<open>raise\<close> or
  \<^verbatim>\<open>return\<close> on every path, so it runs once. The result is the emitted timestamp and
  the iterator with its new cursor.
\<close>

definition cron_next :: "cron_iter \<Rightarrow> error + datetime \<times> cron_iter" where
  "cron_next self =
     and_then (shift_time (self_current self) (self_minute self) (self_hour self)) (\<lambda>dt1.
     and_then (shift_date dt1 (self_dom self) (self_month self) (self_dow self)) (\<lambda>dt.
       if dt_less dt (self_current self) then Inl StopIteration
       else and_then (add_minutes dt 1) (\<lambda>cur. Inr (dt, self\<lparr>self_current := cur\<rparr>))))"

text \<open>The first \<open>n\<close> results of \<^verbatim>\<open>next()\<close>, in order, and the iterator after them.\<close>

fun take_next :: "nat \<Rightarrow> cron_iter \<Rightarrow> error + datetime list \<times> cron_iter" where
  "take_next 0 self = Inr ([], self)"
| "take_next (Suc n) self =
     and_then (cron_next self) (\<lambda>(dt, self').
     and_then (take_next n self') (\<lambda>(dts, self''). Inr (dt # dts, self'')))"

subsection \<open>Entry point\<close>

text \<open>
  Whitespace of \<^verbatim>\<open>str.strip()\<close> and \<^verbatim>\<open>str.split()\<close> below code point 256: tab to
  carriage return, the four separators 28..31, the space, next line (133) and the
  no-break space (160).
\<close>

definition is_space :: "char \<Rightarrow> bool" where
  "is_space c =
     (let n = (of_char c :: nat)
      in (9 \<le> n \<and> n \<le> 13) \<or> (28 \<le> n \<and> n \<le> 32) \<or> n = 133 \<or> n = 160)"

definition strip :: "string \<Rightarrow> string" where
  "strip s = rev (dropWhile is_space (rev (dropWhile is_space s)))"

text \<open>\<^verbatim>\<open>s.split()\<close>: the maximal runs of non-space characters; \<open>w\<close> is the run being read, reversed.\<close>

fun split_ws :: "string \<Rightarrow> string \<Rightarrow> string list" where
  "split_ws w [] = (if w = [] then [] else [rev w])"
| "split_ws w (c # cs) =
     (if is_space c then (if w = [] then split_ws [] cs else rev w # split_ws [] cs)
      else split_ws (c # w) cs)"

definition parse_cron_expression :: "string \<Rightarrow> datetime option \<Rightarrow> datetime \<Rightarrow> error + cron_iter" where
  "parse_cron_expression expr start_date now =
     (case split_ws [] (strip expr) of
        [f0, f1, f2, f3, f4] \<Rightarrow>
          and_then (parse_field f0 0 59 ''minute'') (\<lambda>minute'.
          and_then (parse_field f1 0 23 ''hour'') (\<lambda>hour'.
          and_then (parse_field f2 1 31 ''day of month'') (\<lambda>dom'.
          and_then (parse_field (replace_month_string f3) 1 12 ''month'') (\<lambda>month'.
          and_then (parse_field (replace_dow_string f4) 0 7 ''day of week'') (\<lambda>dow.
            cron_init minute' hour' dom' month'
              (if 7 \<in> set dow then map (\<lambda>d. if d \<noteq> 7 then d else 0) dow else dow)
              start_date now)))))
      | _ \<Rightarrow> Inl (ValueError ''Cron expression must have five fields''))"

section \<open>Properties\<close>

subsection \<open>Splitting\<close>

lemma split_on_no_sep: "c \<notin> set s \<Longrightarrow> split_on c s = [s]"
  by (induction s) auto

lemma split_on_append: "c \<notin> set a \<Longrightarrow> split_on c (a @ c # b) = a # split_on c b"
  by (induction a) auto

lemma isdigit_no_slash: "isdigit s \<Longrightarrow> CHR ''/'' \<notin> set s"
  by (auto simp: isdigit_def is_digit_def list_all_iff)

lemma isdigit_str_isdigit: "isdigit s \<Longrightarrow> str_isdigit s"
  by (auto simp: isdigit_def str_isdigit_def list_all_iff)

subsection \<open>Step filtering\<close>

text \<open>
  Claim C5. An atom \<open>base/S\<close> whose step \<open>S\<close> is a digit string with a positive value
  parses to the values of the base atom, in their order, that satisfy
  \<open>(v - min) mod S = 0\<close>: the filter counts from the minimum of the field's domain, not
  from the start of the range. When the base atom fails, the atom fails with the same error.
\<close>

theorem parse_part_step_filter:
  assumes "CHR ''/'' \<notin> set base" and "isdigit S" and "0 < py_int S"
  shows "parse_part (base @ ''/'' @ S) min' max' field_name =
           (case parse_range base min' max' field_name of
              Inl e \<Rightarrow> Inl e
            | Inr vs \<Rightarrow> Inr (filter (\<lambda>v. (v - min') mod py_int S = 0) vs))"
proof -
  have "split_on CHR ''/'' (base @ ''/'' @ S) = [base, S]"
    using assms(1) isdigit_no_slash [OF assms(2)]
    by (simp add: split_on_append split_on_no_sep)
  then show ?thesis
    using assms(2,3) isdigit_str_isdigit [OF assms(2)]
    by (simp add: parse_part_def split: sum.splits)
qed

text \<open>
  The instances the claim names: \<open>*/15\<close> over the hours is \<open>[0, 15]\<close>, over the minutes
  \<open>[0, 15, 30, 45]\<close>; and \<open>10-20/4\<close> over the minutes keeps 12, 16 and 20, not 10, 14, 18.
\<close>

theorem parse_part_step_filter_witness:
  "parse_part ''*/15'' 0 23 ''hour'' = Inr [0, 15] \<and>
   parse_part ''*/15'' 0 59 ''minute'' = Inr [0, 15, 30, 45] \<and>
   parse_part ''10-20/4'' 0 59 ''minute'' = Inr [12, 16, 20]"
proof -
  have d: "isdigit ''15''" "0 < py_int ''15''" "isdigit ''4''" "0 < py_int ''4''"
    by code_simp+
  have s: "CHR ''/'' \<notin> set ''*''" "CHR ''/'' \<notin> set ''10-20''" by simp_all
  have v1: "(case parse_range ''*'' 0 23 ''hour'' of Inl e \<Rightarrow> Inl e
             | Inr vs \<Rightarrow> Inr (filter (\<lambda>v. (v - 0) mod py_int ''15'' = 0) vs)) = Inr [0, 15]"
    by code_simp
  have v2: "(case parse_range ''*'' 0 59 ''minute'' of Inl e \<Rightarrow> Inl e
             | Inr vs \<Rightarrow> Inr (filter (\<lambda>v. (v - 0) mod py_int ''15'' = 0) vs)) = Inr [0, 15, 30, 45]"
    by code_simp
  have v3: "(case parse_range ''10-20'' 0 59 ''minute'' of Inl e \<Rightarrow> Inl e
             | Inr vs \<Rightarrow> Inr (filter (\<lambda>v. (v - 0) mod py_int ''4'' = 0) vs)) = Inr [12, 16, 20]"
    by code_simp
  show ?thesis
    using parse_part_step_filter [OF s(1) d(1,2), of 0 23 "''hour''", unfolded v1]
          parse_part_step_filter [OF s(1) d(1,2), of 0 59 "''minute''", unfolded v2]
          parse_part_step_filter [OF s(2) d(3,4), of 0 59 "''minute''", unfolded v3]
    by simp
qed

subsection \<open>Scenarios\<close>

text \<open>
  Claim C8. The expression \<open>*/15 * * * *\<close> with the start 2023-01-01 00:05 yields
  2023-01-01 00:15, 00:30, 00:45 and 01:00 as the first four results of \<^verbatim>\<open>next()\<close>,
  whatever the clock reads.
\<close>

theorem quarter_hour_scenario:
  "and_then (parse_cron_expression ''*/15 * * * *'' (Some (mk_datetime 2023 1 1 0 5)) now)
     (\<lambda>it. and_then (take_next 4 it) (\<lambda>(dts, _). Inr dts))
   = Inr [mk_datetime 2023 1 1 0 15, mk_datetime 2023 1 1 0 30,
          mk_datetime 2023 1 1 0 45, mk_datetime 2023 1 1 1 0]"
  by code_simp

theorem quarter_hour_scenario_witness:
  "and_then (parse_cron_expression ''*/15 * * * *'' (Some (mk_datetime 2023 1 1 0 5))
       (mk_datetime 2024 2 29 12 0))
     (\<lambda>it. and_then (take_next 4 it) (\<lambda>(dts, _). Inr dts))
   = Inr [mk_datetime 2023 1 1 0 15, mk_datetime 2023 1 1 0 30,
          mk_datetime 2023 1 1 0 45, mk_datetime 2023 1 1 1 0]"
  by (rule quarter_hour_scenario)

text \<open>
  Claim C1 asks that every emitted timestamp has its minute and its hour in the parsed
  sets. For \<open>30 9 15 * *\<close> started at 2023-01-01 00:00 the time-of-day advancer reaches
  09:30 on January 1, the date advancer walks to January 15 and resets the time to 00:00,
  and \<^verbatim>\<open>__next__\<close> returns that timestamp without advancing the time of day again:
  the first result is 2023-01-15 00:00, with minute 0 outside \<open>[30]\<close> and hour 0 outside
  \<open>[9]\<close>.
\<close>

theorem next_resets_time_of_day:
  "and_then (parse_cron_expression ''30 9 15 * *'' (Some (mk_datetime 2023 1 1 0 0)) now)
     (\<lambda>it. and_then (cron_next it)
        (\<lambda>(dt, _). Inr (dt, minute dt \<in> set (self_minute it), hour dt \<in> set (self_hour it))))
   = Inr (mk_datetime 2023 1 15 0 0, False, False)"
  by code_simp

theorem next_resets_time_of_day_witness:
  "and_then (parse_cron_expression ''30 9 15 * *'' (Some (mk_datetime 2023 1 1 0 0))
       (mk_datetime 2024 2 29 12 0))
     (\<lambda>it. and_then (cron_next it)
        (\<lambda>(dt, _). Inr (dt, minute dt \<in> set (self_minute it), hour dt \<in> set (self_hour it))))
   = Inr (mk_datetime 2023 1 15 0 0, False, False)"
  by (rule next_resets_time_of_day)

text \<open>
  Claim C2 asks that \<open>0 9 * * MON-FRI\<close> never yields a Saturday or a Sunday. The names
  resolve to 1..5 under Sunday = 0, while \<^verbatim>\<open>dt.weekday()\<close> numbers Monday as 0. Started
  on Friday 2023-01-06 at 10:00 the first result is 2023-01-07 09:00: \<^verbatim>\<open>weekday()\<close> is 5
  there, a Saturday, number 6 under Sunday = 0, which is not in the parsed set.
\<close>

theorem weekday_range_emits_saturday:
  "and_then (parse_cron_expression ''0 9 * * MON-FRI'' (Some (mk_datetime 2023 1 6 10 0)) now)
     (\<lambda>it. and_then (cron_next it)
        (\<lambda>(dt, _). Inr (dt, weekday dt, weekday_sunday0 dt, weekday_sunday0 dt \<in> set (self_dow it))))
   = Inr (mk_datetime 2023 1 7 9 0, 5, 6, False)"
  by code_simp

theorem weekday_range_emits_saturday_witness:
  "and_then (parse_cron_expression ''0 9 * * MON-FRI'' (Some (mk_datetime 2023 1 6 10 0))
       (mk_datetime 2024 2 29 12 0))
     (\<lambda>it. and_then (cron_next it)
        (\<lambda>(dt, _). Inr (dt, weekday dt, weekday_sunday0 dt, weekday_sunday0 dt \<in> set (self_dow it))))
   = Inr (mk_datetime 2023 1 7 9 0, 5, 6, False)"
  by (rule weekday_range_emits_saturday)

subsection \<open>Wrap arithmetic\<close>

lemma find_sort_None: "\<forall>c\<in>set cs. c < current \<Longrightarrow> find (\<lambda>c. current \<le> c) (sort cs) = None"
  by (auto simp: find_None_iff)

text \<open>
  Claim C6, amended. For a sorted, non-empty candidate list inside \<open>[min, max]\<close> and a
  current value inside \<open>[min, max]\<close> above every candidate, the search returns
  \<open>candidates[0] + max + min + 1 - current\<close>; this is the roll-over delta of a ring of
  width \<open>max - min + 1\<close> exactly when \<open>min = 0\<close>, which holds at both call sites
  (minutes \<open>[0, 59]\<close> and hours \<open>[0, 23]\<close>).
\<close>

theorem to_next_value_wrap:
  assumes "sorted (c0 # cs)"
    and "\<forall>c\<in>set (c0 # cs). min' \<le> c \<and> c \<le> max'"
    and "min' \<le> current" and "current \<le> max'"
    and "\<forall>c\<in>set (c0 # cs). c < current"
  shows "to_next_value current (c0 # cs) min' max' = Inr (c0 + max' + min' + 1 - current) \<and>
         ((c0 + max' + min' + 1 - current = c0 + (max' - min' + 1) - current) = (min' = 0))"
proof -
  have "find (\<lambda>c. current \<le> c) (sort (c0 # cs)) = None"
    using assms(5) by (rule find_sort_None)
  then show ?thesis by (simp add: to_next_value_def)
qed

theorem to_next_value_wrap_witness:
  "to_next_value 50 [0, 15, 30, 45] 0 59 = Inr 10 \<and> (10::int) = 0 + (59 - 0 + 1) - 50"
  using to_next_value_wrap [of 0 "[15, 30, 45]" 0 59 50] by simp

text \<open>
  The claim as stated fails for a domain that does not start at 0: over the days of the
  month \<open>[1, 31]\<close> with the single candidate 1 and the current value 5 the search returns
  29, while the ring of width 31 gives 27.
\<close>

theorem to_next_value_wrap_counterexample:
  "to_next_value 5 [1] 1 31 = Inr 29 \<and> to_next_value 5 [1] 1 31 \<noteq> Inr (1 + (31 - 1 + 1) - 5)"
  by (simp add: to_next_value_def)

subsection \<open>What the field parser returns\<close>

lemma parse_range_bounds:
  "parse_range s min' max' field_name = Inr vs \<Longrightarrow> v \<in> set vs \<Longrightarrow> min' \<le> v \<and> v \<le> max'"
  by (auto simp: parse_range_def Let_def split: if_splits option.splits)

lemma parse_range_nonempty:
  "parse_range s min' max' field_name = Inr vs \<Longrightarrow> min' \<le> max' \<Longrightarrow> vs \<noteq> []"
  by (auto simp: parse_range_def Let_def split: if_splits option.splits)

lemma parse_part_bounds:
  "parse_part p min' max' field_name = Inr vs \<Longrightarrow> v \<in> set vs \<Longrightarrow> min' \<le> v \<and> v \<le> max'"
  by (auto simp: parse_part_def Let_def split: if_splits list.splits sum.splits
           dest: parse_range_bounds)

lemma parse_part_plain_nonempty:
  "parse_part p min' max' field_name = Inr vs \<Longrightarrow> min' \<le> max' \<Longrightarrow> CHR ''/'' \<notin> set p \<Longrightarrow> vs \<noteq> []"
  by (auto simp: parse_part_def dest: parse_range_nonempty)

lemma parse_part_star_nonempty:
  assumes "parse_part (CHR ''*'' # CHR ''/'' # S) min' max' field_name = Inr vs" and "min' \<le> max'"
  shows "min' \<in> set vs"
  using assms
  by (auto simp: parse_part_def parse_range_def Let_def split: if_splits list.splits sum.splits)

lemma parse_parts_acc:
  "parse_parts acc ps min' max' field_name = Inr vs \<Longrightarrow> set acc \<subseteq> set vs"
  by (induction ps arbitrary: acc) (fastforce split: sum.splits)+

lemma parse_parts_member:
  "parse_parts acc ps min' max' field_name = Inr vs \<Longrightarrow> p \<in> set ps \<Longrightarrow>
     \<exists>ws. parse_part p min' max' field_name = Inr ws \<and> set ws \<subseteq> set vs"
proof (induction ps arbitrary: acc)
  case Nil
  then show ?case by simp
next
  case (Cons q ps)
  from Cons.prems(1) obtain ws where q: "parse_part q min' max' field_name = Inr ws"
    and rest: "parse_parts (acc @ ws) ps min' max' field_name = Inr vs"
    by (auto split: sum.splits)
  show ?case
  proof (cases "p = q")
    case True
    then show ?thesis using q parse_parts_acc [OF rest] by auto
  next
    case False
    then show ?thesis using Cons.IH [OF rest] Cons.prems(2) by auto
  qed
qed

lemma parse_parts_bounds:
  "parse_parts acc ps min' max' field_name = Inr vs \<Longrightarrow>
   \<forall>v\<in>set acc. min' \<le> v \<and> v \<le> max' \<Longrightarrow> v \<in> set vs \<Longrightarrow> min' \<le> v \<and> v \<le> max'"
proof (induction ps arbitrary: acc)
  case Nil
  then show ?case by simp
next
  case (Cons q ps)
  from Cons.prems(1) obtain ws where q: "parse_part q min' max' field_name = Inr ws"
    and rest: "parse_parts (acc @ ws) ps min' max' field_name = Inr vs"
    by (auto split: sum.splits)
  have "\<forall>v\<in>set (acc @ ws). min' \<le> v \<and> v \<le> max'"
    using Cons.prems(2) parse_part_bounds [OF q] by auto
  then show ?case using Cons.IH [OF rest _ Cons.prems(3)] by blast
qed

text \<open>
  Whenever \<open>parse_field\<close> succeeds, for any bounds, its result is strictly ascending, free
  of duplicates and inside \<open>[min, max]\<close>. With \<open>min \<le> max\<close> it is non-empty as soon as one
  atom of the field has no step suffix or is \<open>*/S\<close>.
\<close>

lemma parse_field_ascending_in_range:
  assumes "parse_field field min' max' field_name = Inr vs"
  shows "sorted_wrt (<) vs \<and> distinct vs \<and> (\<forall>v\<in>set vs. min' \<le> v \<and> v \<le> max') \<and>
         (min' \<le> max' \<and> (\<exists>p\<in>set (split_on CHR '','' field). CHR ''/'' \<notin> set p \<or> take 2 p = ''*/'')
            \<longrightarrow> vs \<noteq> [])"
proof -
  from assms obtain r where r: "parse_parts [] (split_on CHR '','' field) min' max' field_name = Inr r"
    and vs: "vs = sort (remdups r)"
    by (auto simp: parse_field_def split: sum.splits)
  have 1: "sorted_wrt (<) vs" "distinct vs"
    using vs by (simp_all add: strict_sorted_iff)
  have 2: "\<forall>v\<in>set vs. min' \<le> v \<and> v \<le> max'"
    using parse_parts_bounds [OF r] vs by simp
  have 3: "vs \<noteq> []" if le: "min' \<le> max'" and p: "p \<in> set (split_on CHR '','' field)"
    and shape: "CHR ''/'' \<notin> set p \<or> take 2 p = ''*/''" for p
  proof -
    from parse_parts_member [OF r p] obtain ws
      where ws: "parse_part p min' max' field_name = Inr ws" "set ws \<subseteq> set r" by blast
    have "ws \<noteq> []"
    proof (cases "CHR ''/'' \<notin> set p")
      case True
      then show ?thesis using parse_part_plain_nonempty [OF ws(1) le] by simp
    next
      case False
      with shape have "take 2 p = ''*/''" by simp
      then obtain S where "p = CHR ''*'' # CHR ''/'' # S"
        by (cases p; cases "tl p") auto
      then have "min' \<in> set ws" using parse_part_star_nonempty [OF _ le] ws(1) by blast
      then show ?thesis by auto
    qed
    then have "set r \<noteq> {}" using ws(2) by (cases ws) auto
    moreover have "set vs = set r" using vs by simp
    ultimately show ?thesis by auto
  qed
  show ?thesis using 1 2 3 by blast
qed

lemma parse_field_ascending_in_range_example:
  "parse_field ''10-12,5'' 0 23 ''hour'' = Inr [5, 10, 11, 12] \<and>
   sorted_wrt (<) [5, 10, 11, 12 :: int] \<and> distinct [5, 10, 11, 12 :: int] \<and>
   set [5, 10, 11, 12 :: int] \<subseteq> {0..23} \<and> [5, 10, 11, 12 :: int] \<noteq> []"
proof -
  have h: "parse_field ''10-12,5'' 0 23 ''hour'' = Inr [5, 10, 11, 12]" by code_simp
  show ?thesis using h parse_field_ascending_in_range [OF h] by auto
qed

text \<open>
  Claim C4 asks that a successful parse is never empty. The atom \<open>1/2\<close> over the minutes
  parses: the base gives \<open>[1]\<close>, the step filter \<open>(1 - 0) mod 2 = 0\<close> removes it, and
  \<open>parse_field\<close> returns the empty list without raising, although the sibling path of an
  empty range \<open>5-3\<close> raises. \<open>parse_cron_expression\<close> then constructs an iterator with an
  empty minute list, and its first \<^verbatim>\<open>next()\<close> dies at \<^verbatim>\<open>candidates[0]\<close> with
  IndexError.
\<close>

theorem stepped_number_parses_to_empty:
  "parse_field ''1/2'' 0 59 ''minute'' = Inr [] \<and>
   parse_field ''5-3'' 0 59 ''minute'' =
     Inl (ValueError (''minute field contains invalid range '' @ quoted ''5-3'')) \<and>
   and_then (parse_cron_expression ''1/2 * * * *'' (Some (mk_datetime 2023 1 1 0 0)) now)
     (\<lambda>it. Inr (self_minute it)) = Inr [] \<and>
   and_then (parse_cron_expression ''1/2 * * * *'' (Some (mk_datetime 2023 1 1 0 0)) now)
     (\<lambda>it. and_then (cron_next it) (\<lambda>(dt, _). Inr dt)) = Inl IndexError"
  by code_simp

theorem stepped_number_parses_to_empty_witness:
  "parse_field ''1/2'' 0 59 ''minute'' = Inr [] \<and>
   parse_field ''5-3'' 0 59 ''minute'' =
     Inl (ValueError (''minute field contains invalid range '' @ quoted ''5-3'')) \<and>
   and_then (parse_cron_expression ''1/2 * * * *'' (Some (mk_datetime 2023 1 1 0 0))
       (mk_datetime 2024 2 29 12 0))
     (\<lambda>it. Inr (self_minute it)) = Inr [] \<and>
   and_then (parse_cron_expression ''1/2 * * * *'' (Some (mk_datetime 2023 1 1 0 0))
       (mk_datetime 2024 2 29 12 0))
     (\<lambda>it. and_then (cron_next it) (\<lambda>(dt, _). Inr dt)) = Inl IndexError"
  by (rule stepped_number_parses_to_empty)

subsection \<open>Symbolic names\<close>

lemma keys_ok_lookup:
  "keys_ok tbl \<Longrightarrow> map_of tbl [a, b, c] = Some v \<Longrightarrow> is_upper a"
  by (induction tbl) (auto simp: keys_ok_def split: if_splits list.splits)

lemma keys_ok_key:
  "keys_ok tbl \<Longrightarrow> k \<in> set (map fst tbl) \<Longrightarrow> \<exists>a b c v. k = [a, b, c] \<and> map_of tbl k = Some v"
  by (induction tbl) (auto simp: keys_ok_def split: if_splits list.splits)

lemma re_sub_keys_lit:
  assumes "keys_ok tbl" and "\<not> is_upper x"
  shows "re_sub_keys tbl (x # s) = x # re_sub_keys tbl s"
proof (cases s)
  case Nil
  then show ?thesis by simp
next
  case (Cons y s')
  show ?thesis
  proof (cases s')
    case Nil
    with Cons show ?thesis by simp
  next
    case (Cons z s'')
    have "map_of tbl [x, y, z] = None"
      using keys_ok_lookup [OF assms(1), of x y z] assms(2) by (cases "map_of tbl [x, y, z]") auto
    with \<open>s = y # s'\<close> Cons show ?thesis by simp
  qed
qed

lemma re_sub_keys_tokens:
  assumes "keys_ok tbl"
  shows "list_all (token_ok tbl) ts \<Longrightarrow> re_sub_keys tbl (spec_symbolic_text ts) = spec_numeric_text tbl ts"
proof (induction ts rule: spec_symbolic_text.induct)
  case 1
  then show ?case by simp
next
  case (2 c ts)
  then show ?case using re_sub_keys_lit [OF assms] by simp
next
  case (3 k ts)
  then have "k \<in> set (map fst tbl)" by simp
  from keys_ok_key [OF assms this] obtain a b c v where k: "k = [a, b, c]" "map_of tbl k = Some v"
    by blast
  then show ?case using 3 by simp
qed

lemma keys_ok_tables: "keys_ok MONTH_MAP" "keys_ok DOW_MAP"
  by (simp_all add: keys_ok_def MONTH_MAP_def DOW_MAP_def is_upper_def)

text \<open>
  Claim C9. For a month or day-of-week field text made of table names and of characters
  that are not capital letters, resolving the names and parsing gives the same result
  (the same values or the same error) as parsing the equivalent numeric text, for any
  bounds; \<open>JAN,MAR\<close> over \<open>[1, 12]\<close> parses as \<open>1,3\<close> does.
\<close>

theorem resolve_then_parse:
  "(list_all (token_ok MONTH_MAP) ts \<longrightarrow>
      parse_field (replace_month_string (spec_symbolic_text ts)) min' max' field_name =
      parse_field (spec_numeric_text MONTH_MAP ts) min' max' field_name) \<and>
   (list_all (token_ok DOW_MAP) ts \<longrightarrow>
      parse_field (replace_dow_string (spec_symbolic_text ts)) min' max' field_name =
      parse_field (spec_numeric_text DOW_MAP ts) min' max' field_name)"
  by (simp add: replace_month_string_def replace_dow_string_def re_sub_keys_tokens keys_ok_tables)

theorem resolve_then_parse_witness:
  "spec_symbolic_text [Name ''JAN'', Lit CHR '','', Name ''MAR''] = ''JAN,MAR'' \<and>
   spec_numeric_text MONTH_MAP [Name ''JAN'', Lit CHR '','', Name ''MAR''] = ''1,3'' \<and>
   parse_field (replace_month_string ''JAN,MAR'') 1 12 ''month'' = parse_field ''1,3'' 1 12 ''month'' \<and>
   parse_field ''1,3'' 1 12 ''month'' = Inr [1, 3] \<and>
   spec_symbolic_text [Name ''MON'', Lit CHR ''-'', Name ''FRI''] = ''MON-FRI'' \<and>
   spec_numeric_text DOW_MAP [Name ''MON'', Lit CHR ''-'', Name ''FRI''] = ''1-5'' \<and>
   parse_field (replace_dow_string ''MON-FRI'') 0 7 ''day of week'' = parse_field ''1-5'' 0 7 ''day of week''"
proof -
  have a: "list_all (token_ok MONTH_MAP) [Name ''JAN'', Lit CHR '','', Name ''MAR'']"
    by code_simp
  have b: "list_all (token_ok DOW_MAP) [Name ''MON'', Lit CHR ''-'', Name ''FRI'']"
    by code_simp
  have s: "spec_symbolic_text [Name ''JAN'', Lit CHR '','', Name ''MAR''] = ''JAN,MAR''"
     "spec_symbolic_text [Name ''MON'', Lit CHR ''-'', Name ''FRI''] = ''MON-FRI''" by simp_all
  have n: "spec_numeric_text MONTH_MAP [Name ''JAN'', Lit CHR '','', Name ''MAR''] = ''1,3''"
     "spec_numeric_text DOW_MAP [Name ''MON'', Lit CHR ''-'', Name ''FRI''] = ''1-5''" by code_simp+
  have v: "parse_field ''1,3'' 1 12 ''month'' = Inr [1, 3]" by code_simp
  from resolve_then_parse [of "[Name ''JAN'', Lit CHR '','', Name ''MAR'']" 1 12 "''month''"] a
  have 1: "parse_field (replace_month_string ''JAN,MAR'') 1 12 ''month'' = parse_field ''1,3'' 1 12 ''month''"
    unfolding s n by blast
  from resolve_then_parse [of "[Name ''MON'', Lit CHR ''-'', Name ''FRI'']" 0 7 "''day of week''"] b
  have 2: "parse_field (replace_dow_string ''MON-FRI'') 0 7 ''day of week'' = parse_field ''1-5'' 0 7 ''day of week''"
    unfolding s n by blast
  show ?thesis using s n v 1 2 by blast
qed

subsection \<open>Rejected atoms\<close>

lemma parse_range_bad_shape:
  assumes "base \<noteq> ''*''" and "\<not> isdigit base" and "match_range base = None"
  shows "parse_range base min' max' field_name =
           Inl (ValueError (field_name @ '' field contains invalid range '' @ quoted base))"
  using assms by (simp add: parse_range_def)

lemma parse_part_bad_shape:
  assumes "CHR ''/'' \<notin> set base" and "CHR ''/'' \<notin> set S"
    and "base \<noteq> ''*''" and "\<not> isdigit base" and "match_range base = None"
    and "p = base \<or> p = base @ ''/'' @ S"
  shows "parse_part p min' max' field_name =
           Inl (ValueError (field_name @ '' field contains invalid range '' @ quoted base))"
proof -
  have r: "parse_range base min' max' field_name =
           Inl (ValueError (field_name @ '' field contains invalid range '' @ quoted base))"
    using assms(3-5) by (rule parse_range_bad_shape)
  from assms(6) show ?thesis
  proof
    assume "p = base"
    then show ?thesis using assms(1) r by (simp add: parse_part_def)
  next
    assume p: "p = base @ ''/'' @ S"
    have "split_on CHR ''/'' p = [base, S]"
      using assms(1,2) p by (simp add: split_on_append split_on_no_sep)
    then show ?thesis using p r by (simp add: parse_part_def)
  qed
qed

lemma parse_parts_first_error:
  assumes "\<forall>q\<in>set pre. \<exists>vs. parse_part q min' max' field_name = Inr vs"
    and "parse_part p min' max' field_name = Inl e"
  shows "parse_parts acc (pre @ p # post) min' max' field_name = Inl e"
  using assms by (induction pre arbitrary: acc) auto

lemma parse_field_first_error:
  assumes "split_on CHR '','' field = pre @ p # post"
    and "\<forall>q\<in>set pre. \<exists>vs. parse_part q min' max' field_name = Inr vs"
    and "parse_part p min' max' field_name = Inl e"
  shows "parse_field field min' max' field_name = Inl e"
  using parse_parts_first_error [OF assms(2,3)] assms(1) by (simp add: parse_field_def)

lemma and_then_Inl [simp]: "and_then (Inl e) f = Inl e"
  by (simp add: and_then_def)

lemma and_then_Inr [simp]: "and_then (Inr x) f = f x"
  by (simp add: and_then_def)
















subsection \<open>Hours and minutes\<close>

lemma hm_le:
  fixes m h t :: int
  assumes "0 \<le> m" and "h * 60 + m \<le> t"
  shows "h < t div 60 \<or> (h \<le> t div 60 \<and> m \<le> t mod 60)"
proof -
  define q r where "q = t div 60" and "r = t mod 60"
  have t: "t = 60 * q + r" "0 \<le> r" "r < 60" by (simp_all add: q_def r_def)
  have "h < q \<or> (h \<le> q \<and> m \<le> r)"
  proof (cases "h < q")
    case False
    then have "h = q" using t assms by linarith
    then show ?thesis using t assms by linarith
  qed simp
  then show ?thesis by (simp add: q_def r_def)
qed
lemma hm_less:
  fixes m h t :: int
  assumes "0 \<le> m" and "h * 60 + m < t"
  shows "h < t div 60 \<or> (h \<le> t div 60 \<and> m < t mod 60)"
proof -
  define q r where "q = t div 60" and "r = t mod 60"
  have t: "t = 60 * q + r" "0 \<le> r" "r < 60" by (simp_all add: q_def r_def)
  have "h < q \<or> (h \<le> q \<and> m < r)"
  proof (cases "h < q")
    case False
    then have "h = q" using t assms by linarith
    then show ?thesis using t assms by linarith
  qed simp
  then show ?thesis by (simp add: q_def r_def)
qed
lemma h_less:
  fixes h n :: int
  assumes "0 \<le> h" and "0 < n" and "h + n < 24"
  shows "h < (h + n) mod 24"
  using assms by simp
lemma small_div:
  fixes t :: int
  assumes "0 \<le> t" and "t < 1440"
  shows "t div 1440 = 0" and "t mod 1440 = t"
  using assms by simp_all
lemma min_mod:
  fixes h m n :: int
  shows "(h * 60 + m + n) mod 60 = (m + n) mod 60"
  by (simp add: add.assoc)
lemma hour_same:
  fixes h m n :: int
  assumes "0 \<le> m" "0 \<le> n" "m + n \<le> 59"
  shows "(h * 60 + m + n) div 60 = h"
proof -
  have "(h * 60 + (m + n)) div 60 = h + (m + n) div 60" by simp
  then show ?thesis using assms by (simp add: add.assoc)
qed

subsection \<open>Order of timestamps\<close>

lemma dt_le_refl: "dt_le a a"
  by (simp add: dt_le_def)

lemma dt_le_trans: "dt_le a b \<Longrightarrow> dt_le b c \<Longrightarrow> dt_le a c"
  unfolding dt_le_def by (rule order_trans)

lemma dt_less_le_trans: "dt_less a b \<Longrightarrow> dt_le b c \<Longrightarrow> dt_less a c"
  unfolding dt_le_def dt_less_def by (rule less_le_trans)

lemma dt_le_less_trans: "dt_le a b \<Longrightarrow> dt_less b c \<Longrightarrow> dt_less a c"
  unfolding dt_le_def dt_less_def by (rule le_less_trans)

lemma dt_less_imp_le: "dt_less a b \<Longrightarrow> dt_le a b"
  unfolding dt_le_def dt_less_def by (rule less_imp_le)

lemma not_dt_less: "(\<not> dt_less a b) = dt_le b a"
  unfolding dt_le_def dt_less_def by (rule not_less)

text \<open>A later date, or the same date and a later hour, is a later timestamp.\<close>

lemma later_hour_dt_less:
  "(date_key a, hour a) < (date_key b, hour b) \<Longrightarrow> dt_less a b"
  by (auto simp: dt_less_def dt_key_def date_key_def)

lemma later_date_dt_less: "date_key a < date_key b \<Longrightarrow> dt_less a b"
  by (auto simp: dt_less_def dt_key_def date_key_def)

lemma same_date_dt_le:
  "date_key a = date_key b \<Longrightarrow> (hour a, minute a) \<le> (hour b, minute b) \<Longrightarrow>
   second a = second b \<Longrightarrow> microsecond a = microsecond b \<Longrightarrow> dt_le a b"
  by (auto simp: dt_le_def dt_key_def date_key_def)

subsection \<open>Timestamp arithmetic moves forward\<close>

lemma next_day_later:
  "next_day dt = Inr dt' \<Longrightarrow> date_key dt < date_key dt' \<and> same_time dt dt'"
  by (auto simp: next_day_def date_key_def same_time_def split: if_splits)

lemma iterate_next_day_later:
  "iterate n next_day dt = Inr dt' \<Longrightarrow>
     (if n = 0 then date_key dt = date_key dt' else date_key dt < date_key dt') \<and> same_time dt dt'"
proof (induction n arbitrary: dt)
  case 0
  then show ?case by (simp add: same_time_def)
next
  case (Suc n)
  from Suc.prems obtain d1 where d1: "next_day dt = Inr d1" and r: "iterate n next_day d1 = Inr dt'"
    by (auto split: sum.splits)
  from next_day_later [OF d1] Suc.IH [OF r] show ?case
    by (auto simp: same_time_def split: if_splits)
qed

lemma add_days_later:
  assumes "add_days dt n = Inr dt'" and "0 \<le> n"
  shows "(if n = 0 then date_key dt = date_key dt' else date_key dt < date_key dt') \<and> same_time dt dt'"
  using iterate_next_day_later [of "nat n" dt dt'] assms by (auto simp: add_days_def)

lemma add_minutes_later:
  assumes "add_minutes dt n = Inr dt'" and "0 \<le> n" and "valid_time dt"
  shows "dt_le dt dt'" and "0 < n \<Longrightarrow> dt_less dt dt'" and "valid_time dt'"
    and "minute dt' = (minute dt + n) mod 60"
    and "minute dt + n \<le> 59 \<Longrightarrow> hour dt' = hour dt \<and> date_key dt' = date_key dt"
proof -
  define total where "total = hour dt * 60 + minute dt + n"
  define d0 where "d0 = dt\<lparr>hour := (total mod 1440) div 60, minute := total mod 60\<rparr>"
  have a: "add_days d0 (total div 1440) = Inr dt'"
    using assms(1) by (simp add: add_minutes_def total_def d0_def Let_def)
  have v: "0 \<le> hour dt" "hour dt \<le> 23" "0 \<le> minute dt" "minute dt \<le> 59"
    using assms(3) by (simp_all add: valid_time_def)
  have t0: "0 \<le> total" using assms(2) v by (simp add: total_def)
  then have q: "0 \<le> total div 1440" by simp
  note L = add_days_later [OF a q]
  have st: "hour dt' = (total mod 1440) div 60" "minute dt' = total mod 60"
       "second dt' = second dt" "microsecond dt' = microsecond dt"
    using L by (simp_all add: same_time_def d0_def)
  have dk0: "date_key d0 = date_key dt" by (simp add: d0_def date_key_def)
  have hr: "0 \<le> (total mod 1440) div 60" "(total mod 1440) div 60 \<le> 23"
  proof -
    have "0 \<le> total mod 1440" "total mod 1440 < 1440" by simp_all
    then show "0 \<le> (total mod 1440) div 60" "(total mod 1440) div 60 \<le> 23" by simp_all
  qed
  show "valid_time dt'" using st hr by (simp add: valid_time_def)
  show "minute dt' = (minute dt + n) mod 60"
    using st min_mod [of "hour dt" "minute dt" n] by (simp add: total_def)
  have same_day: "date_key dt = date_key dt' \<and> hour dt' = total div 60" if "total div 1440 = 0"
  proof -
    from that have "total < 1440" using t0 by (simp add: div_eq_0_iff)
    then have "total mod 1440 = total" using t0 by simp
    then show ?thesis using L that dk0 st by simp
  qed
  have later_day: "date_key dt < date_key dt'" if "total div 1440 \<noteq> 0"
    using L that dk0 by simp
  show le: "dt_le dt dt'"
  proof (cases "total div 1440 = 0")
    case True
    have "hour dt * 60 + minute dt \<le> total" using assms(2) by (simp add: total_def)
    from hm_le [OF v(3) this] have "(hour dt, minute dt) \<le> (hour dt', minute dt')"
      using same_day [OF True] st by simp
    then show ?thesis using same_day [OF True] st by (intro same_date_dt_le) simp_all
  next
    case False
    then show ?thesis by (intro dt_less_imp_le later_date_dt_less later_day)
  qed
  show "dt_less dt dt'" if "0 < n"
  proof (cases "total div 1440 = 0")
    case True
    have "hour dt * 60 + minute dt < total" using that by (simp add: total_def)
    from hm_less [OF v(3) this] have "(hour dt, minute dt) < (hour dt', minute dt')"
      using same_day [OF True] st by simp
    then show ?thesis using same_day [OF True] st
      by (simp add: dt_less_def dt_key_def date_key_def)
  next
    case False
    then show ?thesis by (intro later_date_dt_less later_day)
  qed
  show "hour dt' = hour dt \<and> date_key dt' = date_key dt" if "minute dt + n \<le> 59"
  proof -
    have "total < 1440" using that v by (simp add: total_def)
    then have z: "total div 1440 = 0" using t0 by simp
    have "total div 60 = hour dt"
      unfolding total_def using v(3) assms(2) that by (rule hour_same)
    then show ?thesis using same_day [OF z] by simp
  qed
qed

lemma and_then_eq_Inr: "and_then r f = Inr y \<Longrightarrow> \<exists>x. r = Inr x \<and> f x = Inr y"
  by (cases r) simp_all

lemma and_then_eq_Inl: "and_then r f = Inl e \<Longrightarrow> r = Inl e \<or> (\<exists>x. r = Inr x \<and> f x = Inl e)"
  by (cases r) simp_all

lemma prev_day_same_time: "prev_day dt = Inr dt' \<Longrightarrow> same_time dt dt'"
  by (auto simp: prev_day_def same_time_def split: if_splits)

lemma same_time_trans: "same_time a b \<Longrightarrow> same_time b c \<Longrightarrow> same_time a c"
  by (simp add: same_time_def)

lemma iterate_same_time:
  assumes "\<And>x y. f x = Inr y \<Longrightarrow> same_time x y"
  shows "iterate n f dt = Inr dt' \<Longrightarrow> same_time dt dt'"
proof (induction n arbitrary: dt)
  case 0
  then show ?case by (simp add: same_time_def)
next
  case (Suc n)
  from Suc.prems obtain d1 where 1: "f dt = Inr d1" and 2: "iterate n f d1 = Inr dt'"
    by (cases "f dt") simp_all
  show ?case by (rule same_time_trans [OF assms [OF 1] Suc.IH [OF 2]])
qed

lemma add_days_same_time:
  assumes "add_days dt n = Inr dt'"
  shows "same_time dt dt'"
proof (cases "0 \<le> n")
  case True
  then have "iterate (nat n) next_day dt = Inr dt'" using assms by (simp add: add_days_def)
  then show ?thesis by (rule iterate_same_time [rotated]) (rule next_day_later [THEN conjunct2])
next
  case False
  then have "iterate (nat (- n)) prev_day dt = Inr dt'" using assms by (simp add: add_days_def)
  then show ?thesis by (rule iterate_same_time [rotated]) (rule prev_day_same_time)
qed

lemma add_minutes_valid_time: "add_minutes dt n = Inr dt' \<Longrightarrow> valid_time dt'"
proof -
  assume a: "add_minutes dt n = Inr dt'"
  define total where "total = hour dt * 60 + minute dt + n"
  have "same_time (dt\<lparr>hour := (total mod 1440) div 60, minute := total mod 60\<rparr>) dt'"
    using a by (intro add_days_same_time [of _ "total div 1440"]) (simp add: add_minutes_def total_def Let_def)
  then have st: "hour dt' = (total mod 1440) div 60" "minute dt' = total mod 60"
    by (simp_all add: same_time_def)
  have "0 \<le> total mod 1440" "total mod 1440 < 1440" by simp_all
  then have "0 \<le> (total mod 1440) div 60" "(total mod 1440) div 60 \<le> 23" by simp_all
  then show ?thesis using st by (simp add: valid_time_def)
qed

lemma add_hours_valid_time: "add_hours dt n = Inr dt' \<Longrightarrow> valid_time dt \<Longrightarrow> valid_time dt'"
proof -
  assume a: "add_hours dt n = Inr dt'" and v: "valid_time dt"
  have "same_time (dt\<lparr>hour := (hour dt + n) mod 24\<rparr>) dt'"
    using a by (intro add_days_same_time [of _ "(hour dt + n) div 24"]) (simp add: add_hours_def Let_def)
  then have "hour dt' = (hour dt + n) mod 24" "minute dt' = minute dt"
    by (simp_all add: same_time_def)
  then show ?thesis using v by (simp add: valid_time_def)
qed

lemma replace_minute_Inr:
  "replace_minute dt v = Inr dt' \<Longrightarrow> dt' = dt\<lparr>minute := v\<rparr> \<and> 0 \<le> v \<and> v \<le> 59"
  by (auto simp: replace_minute_def split: if_splits)

lemma first_Inr: "first xs = Inr x \<Longrightarrow> x \<in> set xs"
  by (cases xs) auto

lemma add_hours_later:
  assumes "add_hours dt n = Inr dt'" and "0 < n" and "valid_time dt"
  shows "(date_key dt, hour dt) < (date_key dt', hour dt')"
proof -
  define total where "total = hour dt + n"
  define d0 where "d0 = dt\<lparr>hour := total mod 24\<rparr>"
  have a: "add_days d0 (total div 24) = Inr dt'"
    using assms(1) by (simp add: add_hours_def total_def d0_def Let_def)
  have v: "0 \<le> hour dt" using assms(3) by (simp add: valid_time_def)
  then have t0: "0 \<le> total" using assms(2) by (simp add: total_def)
  then have q: "0 \<le> total div 24" by simp
  note L = add_days_later [OF a q]
  have dk0: "date_key d0 = date_key dt" by (simp add: d0_def date_key_def)
  have h: "hour dt' = total mod 24" using L by (simp add: same_time_def d0_def)
  show ?thesis
  proof (cases "total div 24 = 0")
    case True
    then have "total < 24" using t0 by (simp add: div_eq_0_iff)
    then have "total mod 24 = total" using t0 by simp
    then have "hour dt < hour dt'" using h assms(2) by (simp add: total_def)
    moreover have "date_key dt = date_key dt'" using L True dk0 by simp
    ultimately show ?thesis by simp
  next
    case False
    then have "date_key dt < date_key dt'" using L dk0 by simp
    then show ?thesis by simp
  qed
qed

subsection \<open>What the next-or-wrap search returns inside a domain from 0\<close>

lemma to_next_value_Inr:
  assumes "to_next_value current candidates 0 max' = Inr d"
    and "set candidates \<subseteq> {0..max'}" and "current \<le> max'"
  shows "0 \<le> d \<and> ((current + d \<in> set candidates \<and> current + d \<le> max') \<or>
                    (\<exists>c\<in>set candidates. current + d = c + (max' + 1)))"
proof (cases "find (\<lambda>candidate. current \<le> candidate) (sort candidates)")
  case None
  then obtain c0 cs where c: "candidates = c0 # cs" and d: "d = c0 + max' + 0 + 1 - current"
    using assms(1) by (auto simp: to_next_value_def split: list.splits)
  have "0 \<le> c0" using assms(2) c by simp
  then show ?thesis using d c assms(3) by auto
next
  case (Some c)
  then have d: "d = c - current" using assms(1) by (simp add: to_next_value_def)
  from Some obtain i where "i < length (sort candidates)" "current \<le> sort candidates ! i"
    "c = sort candidates ! i" unfolding find_Some_iff by blast
  then have "current \<le> c" "c \<in> set (sort candidates)"
    using nth_mem [of i "sort candidates"] by simp_all
  then have "current \<le> c" "c \<in> set candidates" by simp_all
  then show ?thesis using d assms(2) by auto
qed

subsection \<open>The advancers move forward\<close>

lemma shift_time_steps:
  assumes "shift_time dt minutes hours = Inr dt'"
  obtains add_minute dt1 dt2 add_hour where
    "to_next_value (minute dt) minutes 0 59 = Inr add_minute"
    "add_minutes dt add_minute = Inr dt1"
    "(if minute dt1 \<notin> set minutes then and_then (first minutes) (replace_minute dt1) else Inr dt1) = Inr dt2"
    "to_next_value (hour dt2) hours 0 23 = Inr add_hour"
    "(if add_hour > 0
      then and_then (add_hours dt2 add_hour) (\<lambda>dt3. and_then (first minutes) (replace_minute dt3))
      else Inr dt2) = Inr dt'"
proof -
  from assms obtain a where 1: "to_next_value (minute dt) minutes 0 59 = Inr a"
    and r1: "and_then (add_minutes dt a) (\<lambda>dt1.
     and_then (if minute dt1 \<notin> set minutes
               then and_then (first minutes) (replace_minute dt1)
               else Inr dt1) (\<lambda>dt2.
     and_then (to_next_value (hour dt2) hours 0 23) (\<lambda>add_hour.
       if add_hour > 0
       then and_then (add_hours dt2 add_hour) (\<lambda>dt3.
            and_then (first minutes) (replace_minute dt3))
       else Inr dt2))) = Inr dt'"
    unfolding shift_time_def by (blast dest: and_then_eq_Inr)
  from and_then_eq_Inr [OF r1] obtain d1 where 2: "add_minutes dt a = Inr d1"
    and r2: "and_then (if minute d1 \<notin> set minutes
               then and_then (first minutes) (replace_minute d1)
               else Inr d1) (\<lambda>dt2.
     and_then (to_next_value (hour dt2) hours 0 23) (\<lambda>add_hour.
       if add_hour > 0
       then and_then (add_hours dt2 add_hour) (\<lambda>dt3.
            and_then (first minutes) (replace_minute dt3))
       else Inr dt2)) = Inr dt'" by blast
  from and_then_eq_Inr [OF r2] obtain d2 where 3: "(if minute d1 \<notin> set minutes
               then and_then (first minutes) (replace_minute d1)
               else Inr d1) = Inr d2"
    and r3: "and_then (to_next_value (hour d2) hours 0 23) (\<lambda>add_hour.
       if add_hour > 0
       then and_then (add_hours d2 add_hour) (\<lambda>dt3.
            and_then (first minutes) (replace_minute dt3))
       else Inr d2) = Inr dt'" by blast
  from and_then_eq_Inr [OF r3] obtain h where 4: "to_next_value (hour d2) hours 0 23 = Inr h"
    and 5: "(if h > 0
       then and_then (add_hours d2 h) (\<lambda>dt3.
            and_then (first minutes) (replace_minute dt3))
       else Inr d2) = Inr dt'" by blast
  from 1 2 3 4 5 show ?thesis by (rule that)
qed

lemma wrapped_minute:
  fixes c :: int
  assumes "0 \<le> c" and "c \<le> 59"
  shows "(c + 60) mod 60 = c"
  using assms by simp

lemma shift_time_later:
  assumes "shift_time dt minutes hours = Inr dt'"
    and "set minutes \<subseteq> {0..59}" and "set hours \<subseteq> {0..23}" and "valid_time dt"
  shows "dt_le dt dt'"
proof -
  from assms(1) obtain a d1 d2 h where
    1: "to_next_value (minute dt) minutes 0 59 = Inr a" and
    2: "add_minutes dt a = Inr d1" and
    3: "(if minute d1 \<notin> set minutes then and_then (first minutes) (replace_minute d1) else Inr d1) = Inr d2" and
    4: "to_next_value (hour d2) hours 0 23 = Inr h" and
    5: "(if h > 0
      then and_then (add_hours d2 h) (\<lambda>dt3. and_then (first minutes) (replace_minute dt3))
      else Inr d2) = Inr dt'"
    by (rule shift_time_steps)
  have v: "0 \<le> minute dt" "minute dt \<le> 59" using assms(4) by (simp_all add: valid_time_def)
  from to_next_value_Inr [OF 1 assms(2) v(2)]
  have a0: "0 \<le> a" and
    am: "(minute dt + a \<in> set minutes \<and> minute dt + a \<le> 59) \<or>
         (\<exists>c\<in>set minutes. minute dt + a = c + (59 + 1))" by blast+
  have le1: "dt_le dt d1" and v1: "valid_time d1" and m1: "minute d1 = (minute dt + a) mod 60"
    using add_minutes_later [OF 2 a0 assms(4)] by blast+
  have "minute d1 \<in> set minutes"
    using am
  proof
    assume x: "minute dt + a \<in> set minutes \<and> minute dt + a \<le> 59"
    then have "0 \<le> minute dt + a" using v a0 by simp
    then have "(minute dt + a) mod 60 = minute dt + a" using x by simp
    then show ?thesis using x m1 by simp
  next
    assume "\<exists>c\<in>set minutes. minute dt + a = c + (59 + 1)"
    then obtain c where c: "c \<in> set minutes" "minute dt + a = c + 60" by auto
    then have "0 \<le> c" "c \<le> 59" using assms(2) by auto
    then have "(c + 60) mod 60 = c" by (rule wrapped_minute)
    then show ?thesis using c m1 by simp
  qed
  then have d2: "d2 = d1" using 3 by simp
  have hv: "hour d1 \<le> 23" using v1 by (simp add: valid_time_def)
  from to_next_value_Inr [OF 4 [unfolded d2] assms(3) hv] have h0: "0 \<le> h" by blast
  show ?thesis
  proof (cases "0 < h")
    case False
    then have "dt' = d1" using 5 d2 by simp
    then show ?thesis using le1 by simp
  next
    case True
    then have "and_then (add_hours d1 h) (\<lambda>dt3. and_then (first minutes) (replace_minute dt3)) = Inr dt'"
      using 5 d2 by simp
    from and_then_eq_Inr [OF this] obtain d3 where d3: "add_hours d1 h = Inr d3"
      and r: "and_then (first minutes) (replace_minute d3) = Inr dt'" by blast
    from and_then_eq_Inr [OF r] obtain m0 where "replace_minute d3 m0 = Inr dt'" by blast
    then have e: "dt' = d3\<lparr>minute := m0\<rparr>" by (blast dest: replace_minute_Inr)
    have "(date_key d1, hour d1) < (date_key d3, hour d3)"
      using d3 True v1 by (rule add_hours_later)
    then have "(date_key d1, hour d1) < (date_key dt', hour dt')"
      using e by (simp add: date_key_def)
    then have "dt_less d1 dt'" by (rule later_hour_dt_less)
    then show ?thesis using le1 by (blast intro: dt_le_trans dt_less_imp_le)
  qed
qed

lemma shift_time_valid_time:
  assumes "shift_time dt minutes hours = Inr dt'"
  shows "valid_time dt'"
proof -
  from assms obtain a d1 d2 h where
    2: "add_minutes dt a = Inr d1" and
    3: "(if minute d1 \<notin> set minutes then and_then (first minutes) (replace_minute d1) else Inr d1) = Inr d2" and
    5: "(if h > 0
      then and_then (add_hours d2 h) (\<lambda>dt3. and_then (first minutes) (replace_minute dt3))
      else Inr d2) = Inr dt'"
    by (rule shift_time_steps)
  have v1: "valid_time d1" using 2 by (rule add_minutes_valid_time)
  have rep: "valid_time y" if "and_then (first minutes) (replace_minute x) = Inr y" "valid_time x" for x y
  proof -
    from and_then_eq_Inr [OF that(1)] obtain m0 where "replace_minute x m0 = Inr y" by blast
    from replace_minute_Inr [OF this] show ?thesis using that(2) by (simp add: valid_time_def)
  qed
  have v2: "valid_time d2"
  proof (cases "minute d1 \<notin> set minutes")
    case True
    then show ?thesis using 3 v1 rep by simp
  next
    case False
    then show ?thesis using 3 v1 by simp
  qed
  show ?thesis
  proof (cases "0 < h")
    case True
    then have "and_then (add_hours d2 h) (\<lambda>dt3. and_then (first minutes) (replace_minute dt3)) = Inr dt'"
      using 5 by simp
    from and_then_eq_Inr [OF this] obtain d3 where d3: "add_hours d2 h = Inr d3"
      and r: "and_then (first minutes) (replace_minute d3) = Inr dt'" by blast
    have "valid_time d3" using d3 v2 by (rule add_hours_valid_time)
    with r show ?thesis by (rule rep)
  next
    case False
    then show ?thesis using 5 v2 by simp
  qed
qed

lemma shift_date_later:
  "shift_date dt dom' month' dow = Inr dt' \<Longrightarrow> dt_le dt dt' \<and> (valid_time dt \<longrightarrow> valid_time dt')"
proof (induction dt dom' month' dow rule: shift_date.induct)
  case (1 dt dom' month' dow)
  show ?case
  proof (cases "day dt \<in> set dom' \<and> month dt \<in> set month' \<and> weekday dt \<in> set dow")
    case True
    then have "dt' = dt" using "1.prems" by (simp add: shift_date.simps)
    then show ?thesis by (simp add: dt_le_refl)
  next
    case False
    then obtain d1 where d1: "add_days dt 1 = Inr d1"
      and r: "shift_date (d1\<lparr>hour := 0, minute := 0\<rparr>) dom' month' dow = Inr dt'"
      using "1.prems" by (subst (asm) shift_date.simps) (auto split: sum.splits)
    from "1.IH" [OF False d1 r]
    have ih: "dt_le (d1\<lparr>hour := 0, minute := 0\<rparr>) dt'" "valid_time dt'"
      by (simp_all add: valid_time_def)
    have "date_key dt < date_key d1" using add_days_later [OF d1] by simp
    then have "date_key dt < date_key (d1\<lparr>hour := 0, minute := 0\<rparr>)" by (simp add: date_key_def)
    then have "dt_less dt (d1\<lparr>hour := 0, minute := 0\<rparr>)" by (rule later_date_dt_less)
    then show ?thesis using ih by (blast intro: dt_le_trans dt_less_imp_le)
  qed
qed

subsection \<open>Only the defensive check raises StopIteration\<close>

lemma next_day_not_stop: "next_day dt \<noteq> Inl StopIteration"
  by (simp add: next_day_def)

lemma prev_day_not_stop: "prev_day dt \<noteq> Inl StopIteration"
  by (simp add: prev_day_def)

lemma iterate_not_stop:
  assumes "\<And>x. f x \<noteq> Inl StopIteration"
  shows "iterate n f x \<noteq> Inl StopIteration"
proof (induction n arbitrary: x)
  case 0
  show ?case by simp
next
  case (Suc n)
  show ?case using assms [of x] Suc by (cases "f x") simp_all
qed

lemma add_days_not_stop: "add_days dt n \<noteq> Inl StopIteration"
  by (simp add: add_days_def iterate_not_stop next_day_not_stop prev_day_not_stop)

lemma add_minutes_not_stop: "add_minutes dt n \<noteq> Inl StopIteration"
  by (simp add: add_minutes_def Let_def add_days_not_stop)

lemma add_hours_not_stop: "add_hours dt n \<noteq> Inl StopIteration"
  by (simp add: add_hours_def Let_def add_days_not_stop)

lemma replace_minute_not_stop: "replace_minute dt v \<noteq> Inl StopIteration"
  by (simp add: replace_minute_def)

lemma first_not_stop: "first xs \<noteq> Inl StopIteration"
  by (cases xs) simp_all

lemma to_next_value_not_stop: "to_next_value current candidates min' max' \<noteq> Inl StopIteration"
  by (simp add: to_next_value_def split: option.splits list.splits)

lemma and_then_not_stop:
  assumes "r \<noteq> Inl StopIteration" and "\<And>x. f x \<noteq> Inl StopIteration"
  shows "and_then r f \<noteq> Inl StopIteration"
  using assms by (cases r) simp_all

lemma first_replace_not_stop: "and_then (first xs) (replace_minute dt) \<noteq> Inl StopIteration"
  by (intro and_then_not_stop first_not_stop replace_minute_not_stop)

lemma shift_time_not_stop: "shift_time dt minutes hours \<noteq> Inl StopIteration"
  unfolding shift_time_def
  by (intro and_then_not_stop to_next_value_not_stop add_minutes_not_stop)
     (simp_all add: first_replace_not_stop and_then_not_stop add_hours_not_stop)

lemma shift_date_not_stop: "shift_date dt dom' month' dow \<noteq> Inl StopIteration"
proof (induction dt dom' month' dow rule: shift_date.induct)
  case (1 dt dom' month' dow)
  show ?case
  proof (cases "day dt \<in> set dom' \<and> month dt \<in> set month' \<and> weekday dt \<in> set dow")
    case True
    then show ?thesis by (simp add: shift_date.simps)
  next
    case False
    show ?thesis
    proof (cases "add_days dt 1")
      case (Inl e)
      then have "e \<noteq> StopIteration" using add_days_not_stop [of dt 1] by auto
      then show ?thesis using False Inl by (subst shift_date.simps) simp
    next
      case (Inr d1)
      from "1.IH" [OF False Inr] show ?thesis using False Inr by (subst shift_date.simps) simp
    qed
  qed
qed

subsection \<open>One call of next, and many\<close>

lemma cron_next_Inr:
  assumes "cron_next self = Inr (dt, self')"
  shows "dt_le (self_current self) dt" and "dt_less dt (self_current self')"
proof -
  from and_then_eq_Inr [OF assms [unfolded cron_next_def]] obtain dt1 where
    1: "shift_time (self_current self) (self_minute self) (self_hour self) = Inr dt1" and
    r1: "and_then (shift_date dt1 (self_dom self) (self_month self) (self_dow self)) (\<lambda>dt.
       if dt_less dt (self_current self) then Inl StopIteration
       else and_then (add_minutes dt 1) (\<lambda>cur. Inr (dt, self\<lparr>self_current := cur\<rparr>))) = Inr (dt, self')"
    by blast
  from and_then_eq_Inr [OF r1] obtain dt2 where
    2: "shift_date dt1 (self_dom self) (self_month self) (self_dow self) = Inr dt2" and
    r2: "(if dt_less dt2 (self_current self) then Inl StopIteration
       else and_then (add_minutes dt2 1) (\<lambda>cur. Inr (dt2, self\<lparr>self_current := cur\<rparr>))) = Inr (dt, self')"
    by blast
  have n: "\<not> dt_less dt2 (self_current self)" using r2 by (auto split: if_splits)
  then have "and_then (add_minutes dt2 1) (\<lambda>cur. Inr (dt2, self\<lparr>self_current := cur\<rparr>)) = Inr (dt, self')"
    using r2 by simp
  from and_then_eq_Inr [OF this] obtain cur where
    3: "add_minutes dt2 1 = Inr cur" and e: "dt = dt2" "self' = self\<lparr>self_current := cur\<rparr>"
    by auto
  show "dt_le (self_current self) dt" using n e by (simp add: not_dt_less)
  have "valid_time dt1" using 1 by (rule shift_time_valid_time)
  then have "valid_time dt2" using shift_date_later [OF 2] by blast
  then have "dt_less dt2 cur" using add_minutes_later(2) [OF 3] by simp
  then show "dt_less dt (self_current self')" using e by simp
qed

lemma take_next_increasing:
  "take_next n self = Inr (dts, self') \<Longrightarrow>
     sorted_wrt dt_less dts \<and> (\<forall>d\<in>set dts. dt_le (self_current self) d)"
proof (induction n arbitrary: self dts self')
  case 0
  then show ?case by simp
next
  case (Suc n)
  from and_then_eq_Inr [OF Suc.prems [unfolded take_next.simps]] obtain x where
    x: "cron_next self = Inr x" and
    r: "(case x of (dt, self1) \<Rightarrow>
          and_then (take_next n self1) (\<lambda>(dts, self''). Inr (dt # dts, self''))) = Inr (dts, self')"
    by blast
  obtain dt self1 where xe: "x = (dt, self1)" by (cases x)
  from r xe have "and_then (take_next n self1) (\<lambda>(dts, self''). Inr (dt # dts, self'')) = Inr (dts, self')"
    by simp
  from and_then_eq_Inr [OF this] obtain y where
    y: "take_next n self1 = Inr y" and
    r2: "(case y of (ds, s2) \<Rightarrow> Inr (dt # ds, s2)) = (Inr (dts, self') :: error + datetime list \<times> cron_iter)"
    by blast
  obtain ds s2 where ye: "y = (ds, s2)" by (cases y)
  from r2 ye have dts: "dts = dt # ds" by simp
  from Suc.IH [OF y [unfolded ye]] have ih: "sorted_wrt dt_less ds" "\<forall>d\<in>set ds. dt_le (self_current self1) d"
    by blast+
  from cron_next_Inr [OF x [unfolded xe]] have c: "dt_le (self_current self) dt" "dt_less dt (self_current self1)" .
  have "\<forall>d\<in>set ds. dt_less dt d" using ih(2) c(2) by (blast intro: dt_less_le_trans)
  then show ?case using dts ih(1) c(1) by (auto intro: dt_le_trans dt_less_imp_le)
qed

subsection \<open>Monotone progress of the iterator\<close>

text \<open>
  Claim C3. For any iterator, whatever its field lists, the timestamps returned by
  successive calls of \<^verbatim>\<open>next()\<close> are strictly increasing, so none is repeated. When
  the iterator was constructed from a start (or from the clock) with a time of day in the
  library's ranges, every returned timestamp, the first one included, is strictly greater
  than the start truncated to the minute.
\<close>

theorem successive_results_increase:
  assumes "take_next n self = Inr (dts, self')"
  shows "sorted_wrt dt_less dts \<and>
         (\<forall>minute' hour' dom' month' dow start_date now.
            cron_init minute' hour' dom' month' dow start_date now = Inr self \<and>
            valid_time (case start_date of Some d \<Rightarrow> d | None \<Rightarrow> now) \<longrightarrow>
            (\<forall>d\<in>set dts. dt_less
               ((case start_date of Some d \<Rightarrow> d | None \<Rightarrow> now)\<lparr>second := 0, microsecond := 0\<rparr>) d))"
proof (intro conjI allI impI ballI)
  show "sorted_wrt dt_less dts" using take_next_increasing [OF assms] by blast
next
  fix minute' hour' dom' month' dow :: "int list" and start_date :: "datetime option"
    and now d :: datetime
  define s where "s = (case start_date of Some d \<Rightarrow> d | None \<Rightarrow> now)"
  assume a: "cron_init minute' hour' dom' month' dow start_date now = Inr self \<and>
            valid_time (case start_date of Some d \<Rightarrow> d | None \<Rightarrow> now)"
    and d: "d \<in> set dts"
  from a have "and_then (add_minutes (s\<lparr>second := 0, microsecond := 0\<rparr>) 1)
       (\<lambda>cur. Inr \<lparr>self_minute = minute', self_hour = hour', self_dom = dom', self_month = month',
                   self_dow = map (\<lambda>d. if d = 7 then 0 else d) dow, self_current = cur\<rparr>) = Inr self"
    by (simp add: cron_init_def s_def)
  from and_then_eq_Inr [OF this] obtain cur where
    c: "add_minutes (s\<lparr>second := 0, microsecond := 0\<rparr>) 1 = Inr cur" and "self_current self = cur"
    by auto
  have "valid_time (s\<lparr>second := 0, microsecond := 0\<rparr>)" using a by (simp add: s_def valid_time_def)
  then have "dt_less (s\<lparr>second := 0, microsecond := 0\<rparr>) cur"
    using add_minutes_later(2) [OF c] by simp
  moreover have "dt_le cur d" using take_next_increasing [OF assms] d \<open>self_current self = cur\<close> by blast
  ultimately show "dt_less
               ((case start_date of Some d \<Rightarrow> d | None \<Rightarrow> now)\<lparr>second := 0, microsecond := 0\<rparr>) d"
    unfolding s_def by (rule dt_less_le_trans)
qed

text \<open>
  Claim C10. With minute and hour lists that are non-empty, sorted and inside their
  domains, and any timestamp \<open>dt\<close> of the library: a result of \<open>shift_time\<close> is not
  earlier than \<open>dt\<close>; a result of \<open>shift_date\<close> is not earlier than \<open>dt\<close>, for any
  day, month and weekday lists; and for an iterator with these lists and the cursor
  \<open>dt\<close> the composed result is never earlier than the cursor, so the defensive check is
  never true and \<^verbatim>\<open>next()\<close> never raises StopIteration.
\<close>

theorem advancers_never_go_back:
  assumes "minutes \<noteq> []" and "sorted minutes" and "set minutes \<subseteq> {0..59}"
    and "hours \<noteq> []" and "sorted hours" and "set hours \<subseteq> {0..23}"
    and "valid_datetime dt"
  shows "(\<forall>dt'. shift_time dt minutes hours = Inr dt' \<longrightarrow> dt_le dt dt') \<and>
         (\<forall>dt'. shift_date dt dom' month' dow = Inr dt' \<longrightarrow> dt_le dt dt') \<and>
         (\<forall>self. self_minute self = minutes \<and> self_hour self = hours \<and> self_current self = dt \<longrightarrow>
            cron_next self \<noteq> Inl StopIteration \<and>
            (\<forall>dt1 dt2. shift_time dt minutes hours = Inr dt1 \<and>
                shift_date dt1 (self_dom self) (self_month self) (self_dow self) = Inr dt2 \<longrightarrow>
                \<not> dt_less dt2 dt))"
proof -
  have v: "valid_time dt" using assms(7) by (simp add: valid_datetime_def valid_time_def)
  have st: "dt_le dt dt'" if "shift_time dt minutes hours = Inr dt'" for dt'
    using that assms(3,6) v by (rule shift_time_later)
  have sd: "dt_le x x'" if "shift_date x a b c = Inr x'" for x x' a b c
    using shift_date_later [OF that] by blast
  have chk: "\<not> dt_less dt2 dt"
    if "shift_time dt minutes hours = Inr dt1" "shift_date dt1 a b c = Inr dt2" for dt1 dt2 a b c
    using st [OF that(1)] sd [OF that(2)] by (simp add: not_dt_less) (rule dt_le_trans)
  have ns: "cron_next self \<noteq> Inl StopIteration"
    if s: "self_minute self = minutes" "self_hour self = hours" "self_current self = dt" for self
  proof
    assume "cron_next self = Inl StopIteration"
    from and_then_eq_Inl [OF this [unfolded cron_next_def]] shift_time_not_stop
    obtain dt1 where 1: "shift_time (self_current self) (self_minute self) (self_hour self) = Inr dt1"
      and r1: "and_then (shift_date dt1 (self_dom self) (self_month self) (self_dow self)) (\<lambda>dt.
       if dt_less dt (self_current self) then Inl StopIteration
       else and_then (add_minutes dt 1) (\<lambda>cur. Inr (dt, self\<lparr>self_current := cur\<rparr>))) = Inl StopIteration"
      by blast
    from and_then_eq_Inl [OF r1] shift_date_not_stop
    obtain dt2 where 2: "shift_date dt1 (self_dom self) (self_month self) (self_dow self) = Inr dt2"
      and r2: "(if dt_less dt2 (self_current self) then Inl StopIteration
       else and_then (add_minutes dt2 1) (\<lambda>cur. Inr (dt2, self\<lparr>self_current := cur\<rparr>))) = Inl StopIteration"
      by blast
    have "\<not> dt_less dt2 (self_current self)" using chk 1 2 s by simp
    then have "and_then (add_minutes dt2 1) (\<lambda>cur. Inr (dt2, self\<lparr>self_current := cur\<rparr>)) = Inl StopIteration"
      using r2 by simp
    from and_then_eq_Inl [OF this] add_minutes_not_stop show False by blast
  qed
  show ?thesis using st sd chk ns by blast
qed

theorem successive_results_increase_witness:
  "take_next 2
     \<lparr>self_minute = [0, 30], self_hour = [9], self_dom = [1..31], self_month = [1..12],
      self_dow = [0..6], self_current = mk_datetime 2023 1 6 10 1\<rparr> =
     Inr ([mk_datetime 2023 1 7 9 0, mk_datetime 2023 1 7 9 30],
          \<lparr>self_minute = [0, 30], self_hour = [9], self_dom = [1..31], self_month = [1..12],
           self_dow = [0..6], self_current = mk_datetime 2023 1 7 9 31\<rparr>) \<and>
   sorted_wrt dt_less [mk_datetime 2023 1 7 9 0, mk_datetime 2023 1 7 9 30] \<and>
   dt_less (mk_datetime 2023 1 6 10 0) (mk_datetime 2023 1 7 9 0) \<and>
   dt_less (mk_datetime 2023 1 6 10 0) (mk_datetime 2023 1 7 9 30)"
proof -
  have t: "take_next 2
     \<lparr>self_minute = [0, 30], self_hour = [9], self_dom = [1..31], self_month = [1..12],
      self_dow = [0..6], self_current = mk_datetime 2023 1 6 10 1\<rparr> =
     Inr ([mk_datetime 2023 1 7 9 0, mk_datetime 2023 1 7 9 30],
          \<lparr>self_minute = [0, 30], self_hour = [9], self_dom = [1..31], self_month = [1..12],
           self_dow = [0..6], self_current = mk_datetime 2023 1 7 9 31\<rparr>)"
    by code_simp
  have i: "cron_init [0, 30] [9] [1..31] [1..12] [0..6]
             (Some ((mk_datetime 2023 1 6 10 0)\<lparr>second := 42\<rparr>)) (mk_datetime 2000 1 1 0 0) =
           Inr \<lparr>self_minute = [0, 30], self_hour = [9], self_dom = [1..31], self_month = [1..12],
                self_dow = [0..6], self_current = mk_datetime 2023 1 6 10 1\<rparr>"
    by code_simp
  have v: "valid_time (case Some ((mk_datetime 2023 1 6 10 0)\<lparr>second := 42\<rparr>) of
             Some d \<Rightarrow> d | None \<Rightarrow> mk_datetime 2000 1 1 0 0)"
    by code_simp
  have e: "(case Some ((mk_datetime 2023 1 6 10 0)\<lparr>second := 42\<rparr>) of
             Some d \<Rightarrow> d | None \<Rightarrow> mk_datetime 2000 1 1 0 0)\<lparr>second := 0, microsecond := 0\<rparr> =
           mk_datetime 2023 1 6 10 0"
    by (simp add: mk_datetime_def)
  note r = successive_results_increase [OF t]
  from r have 1: "sorted_wrt dt_less [mk_datetime 2023 1 7 9 0, mk_datetime 2023 1 7 9 30]"
    by (rule conjunct1)
  from conjunct2 [OF r, rule_format, OF conjI [OF i v]]
  have 2: "\<forall>d\<in>set [mk_datetime 2023 1 7 9 0, mk_datetime 2023 1 7 9 30].
             dt_less (mk_datetime 2023 1 6 10 0) d"
    unfolding e by blast
  show ?thesis using t 1 2 by simp
qed

theorem advancers_never_go_back_witness:
  "shift_time (mk_datetime 2023 1 6 10 1) [0, 30] [9] = Inr (mk_datetime 2023 1 7 9 0) \<and>
   dt_le (mk_datetime 2023 1 6 10 1) (mk_datetime 2023 1 7 9 0) \<and>
   shift_date (mk_datetime 2023 1 6 10 1) [7] [1..12] [0..6] = Inr (mk_datetime 2023 1 7 0 0) \<and>
   dt_le (mk_datetime 2023 1 6 10 1) (mk_datetime 2023 1 7 0 0) \<and>
   cron_next \<lparr>self_minute = [0, 30], self_hour = [9], self_dom = [7], self_month = [1..12],
              self_dow = [0..6], self_current = mk_datetime 2023 1 6 10 1\<rparr> \<noteq> Inl StopIteration"
proof -
  have h: "[0, 30] \<noteq> ([] :: int list)" "sorted [0, 30 :: int]" "set [0, 30 :: int] \<subseteq> {0..59}"
    "[9] \<noteq> ([] :: int list)" "sorted [9 :: int]" "set [9 :: int] \<subseteq> {0..23}"
    by simp_all
  have v: "valid_datetime (mk_datetime 2023 1 6 10 1)" by code_simp
  have a: "shift_time (mk_datetime 2023 1 6 10 1) [0, 30] [9] = Inr (mk_datetime 2023 1 7 9 0)"
    by code_simp
  have b: "shift_date (mk_datetime 2023 1 6 10 1) [7] [1..12] [0..6] = Inr (mk_datetime 2023 1 7 0 0)"
    by code_simp
  note r = advancers_never_go_back [OF h v, of "[7]" "[1..12]" "[0..6]"]
  from r a have 1: "dt_le (mk_datetime 2023 1 6 10 1) (mk_datetime 2023 1 7 9 0)" by blast
  from r b have 2: "dt_le (mk_datetime 2023 1 6 10 1) (mk_datetime 2023 1 7 0 0)" by blast
  from r have 3: "cron_next \<lparr>self_minute = [0, 30], self_hour = [9], self_dom = [7], self_month = [1..12],
              self_dow = [0..6], self_current = mk_datetime 2023 1 6 10 1\<rparr> \<noteq> Inl StopIteration"
    by simp
  show ?thesis using a b 1 2 3 by blast
qed

end
